theory Spec2Isabelle
  imports Complex_Main "HOL-Library.Sublist"
begin

section \<open>Strings\<close>

text \<open>
  A line is a \<^typ>\<open>string\<close>: the list of its code units, each below 256. The character
  classes of the regular expressions of the source are predicates on the code of a
  character.
\<close>

definition code :: "char \<Rightarrow> nat" where
  "code c = of_char c"

definition ESC :: char where
  "ESC = CHR 0x1B"

text \<open>The class \<^verbatim>\<open>[0-9]\<close>.\<close>

definition isDigit :: "char \<Rightarrow> bool" where
  "isDigit c = (48 \<le> code c \<and> code c \<le> 57)"

text \<open>The class \<^verbatim>\<open>[0-9;]\<close> of the parameters of a style marker.\<close>

definition isParam :: "char \<Rightarrow> bool" where
  "isParam c = (isDigit c \<or> c = CHR '';'')"

section \<open>ConsoleOutput.tsx: the escape-sequence interpreter\<close>

subsection \<open>The regular expression of a style marker\<close>

text \<open>
  \<^verbatim>\<open>/\x1b\[([0-9;]*)m|\u001b\[([0-9;]*)m/g\<close>: both alternatives are the same expression,
  so the first one matches whenever one does and group 1 holds the parameters.
  \<open>marker_here s\<close> attempts the match at the head of \<open>s\<close>: the star is greedy, and since
  \<^verbatim>\<open>m\<close> is not in the class no shorter run can be followed by \<^verbatim>\<open>m\<close>. The result is
  group 1 and the text after the match.
\<close>

fun marker_here :: "string \<Rightarrow> (string \<times> string) option" where
  "marker_here (e # b # s) =
     (if e = ESC \<and> b = CHR ''[''
      then (case dropWhile isParam s of
              [] \<Rightarrow> None
            | m # rest \<Rightarrow> if m = CHR ''m'' then Some (takeWhile isParam s, rest) else None)
      else None)"
| "marker_here _ = None"

text \<open>
  The scan of \<^verbatim>\<open>exec\<close>: the leftmost position, from \<open>i\<close> on, where the expression
  matches. The result is \<^verbatim>\<open>match.index\<close>, group 1 and \<^verbatim>\<open>match[0].length\<close>.
\<close>

fun search_from :: "string \<Rightarrow> nat \<Rightarrow> (nat \<times> string \<times> nat) option" where
  "search_from [] i = None"
| "search_from (c # cs) i =
     (case marker_here (c # cs) of
        Some (g1, rest) \<Rightarrow> Some (i, g1, 3 + length g1)
      | None \<Rightarrow> search_from cs (Suc i))"

text \<open>\<^verbatim>\<open>ansiRegex.exec(input)\<close> with the expression's \<^verbatim>\<open>lastIndex\<close>.\<close>

definition ansiRegex_exec :: "string \<Rightarrow> nat \<Rightarrow> (nat \<times> string \<times> nat) option" where
  "ansiRegex_exec input lastIndex =
     (if length input < lastIndex then None
      else search_from (drop lastIndex input) lastIndex)"

subsection \<open>Codes and classes\<close>

definition ANSI_COLORS :: "nat \<Rightarrow> string option" where
  "ANSI_COLORS = map_of
     [(30, ''text-zinc-900''), (31, ''text-red-500''), (32, ''text-green-500''),
      (33, ''text-yellow-500''), (34, ''text-blue-500''), (35, ''text-purple-500''),
      (36, ''text-cyan-500''), (37, ''text-zinc-300''),
      (90, ''text-zinc-500''), (91, ''text-red-400''), (92, ''text-green-400''),
      (93, ''text-yellow-300''), (94, ''text-blue-400''), (95, ''text-purple-400''),
      (96, ''text-cyan-400''), (97, ''text-white''),
      (40, ''bg-zinc-900''), (41, ''bg-red-900''), (42, ''bg-green-900''),
      (43, ''bg-yellow-900''), (44, ''bg-blue-900''), (45, ''bg-purple-900''),
      (46, ''bg-cyan-900''), (47, ''bg-zinc-700'')]"

text \<open>
  \<^verbatim>\<open>s.split(';')\<close>: the pieces between the separators; an empty string gives one empty
  piece.
\<close>

fun split_semi :: "string \<Rightarrow> string list" where
  "split_semi [] = [[]]"
| "split_semi (c # cs) =
     (if c = CHR '';'' then [] # split_semi cs
      else (case split_semi cs of
              [] \<Rightarrow> [[c]]
            | p # ps \<Rightarrow> (c # p) # ps))"

text \<open>
  \<^verbatim>\<open>Number(s)\<close> on a string of decimal digits, the only strings a piece of group 1 can
  be: the empty string is 0. A value too large for a double is read by the source as a
  float that equals none of the codes, as the natural number here.
\<close>

definition Number :: "string \<Rightarrow> nat" where
  "Number s = foldl (\<lambda>n c. 10 * n + (code c - 48)) 0 s"

text \<open>The local variables of \<^verbatim>\<open>parseAnsi\<close> that carry the active style.\<close>

record style =
  currentClasses :: "string list"
  bold :: bool
  dim :: bool
  italic :: bool
  underline :: bool

definition default_style :: style where
  "default_style =
     \<lparr>currentClasses = [], bold = False, dim = False, italic = False, underline = False\<rparr>"

text \<open>One round of the loop over the codes of a marker.\<close>

definition apply_code :: "style \<Rightarrow> nat \<Rightarrow> style" where
  "apply_code st c =
     (if c = 0 then
        st\<lparr>currentClasses := [], bold := False, dim := False, italic := False,
           underline := False\<rparr>
      else if c = 1 then st\<lparr>bold := True\<rparr>
      else if c = 2 then st\<lparr>dim := True\<rparr>
      else if c = 3 then st\<lparr>italic := True\<rparr>
      else if c = 4 then st\<lparr>underline := True\<rparr>
      else if c = 22 then st\<lparr>bold := False, dim := False\<rparr>
      else if c = 23 then st\<lparr>italic := False\<rparr>
      else if c = 24 then st\<lparr>underline := False\<rparr>
      else (case ANSI_COLORS c of
              None \<Rightarrow> st
            | Some cls \<Rightarrow>
                (let kept =
                   (if (30 \<le> c \<and> c \<le> 37) \<or> (90 \<le> c \<and> c \<le> 97)
                    then filter (\<lambda>k. \<not> prefix ''text-'' k) (currentClasses st)
                    else if 40 \<le> c \<and> c \<le> 47
                    then filter (\<lambda>k. \<not> prefix ''bg-'' k) (currentClasses st)
                    else currentClasses st)
                 in st\<lparr>currentClasses := kept @ [cls]\<rparr>)))"

text \<open>\<^verbatim>\<open>(match[1] || match[2] || '0').split(';').map(Number)\<close>.\<close>

definition codes_of :: "string \<Rightarrow> nat list" where
  "codes_of g1 = map Number (split_semi (if g1 \<noteq> [] then g1 else ''0''))"

definition apply_codes :: "style \<Rightarrow> nat list \<Rightarrow> style" where
  "apply_codes st cs = foldl apply_code st cs"

subsection \<open>Segments\<close>

text \<open>
  The interface \<^verbatim>\<open>TextSegment\<close>. The four flags are optional in the source: \<open>None\<close> is a
  flag that is absent (\<^verbatim>\<open>undefined\<close>), which the renderer treats as false.
\<close>

record TextSegment =
  seg_text :: string
  seg_classes :: "string list"
  seg_bold :: "bool option"
  seg_dim :: "bool option"
  seg_italic :: "bool option"
  seg_underline :: "bool option"

text \<open>\<^verbatim>\<open>{ text, classes: [...currentClasses], bold, dim, italic, underline }\<close>.\<close>

definition segment :: "string \<Rightarrow> style \<Rightarrow> TextSegment" where
  "segment t st =
     \<lparr>seg_text = t, seg_classes = currentClasses st, seg_bold = Some (bold st),
      seg_dim = Some (dim st), seg_italic = Some (italic st),
      seg_underline = Some (underline st)\<rparr>"

text \<open>\<^verbatim>\<open>{ text: input, classes: [] }\<close>.\<close>

definition plain_segment :: "string \<Rightarrow> TextSegment" where
  "plain_segment t =
     \<lparr>seg_text = t, seg_classes = [], seg_bold = None, seg_dim = None, seg_italic = None,
      seg_underline = None\<rparr>"

text \<open>\<^verbatim>\<open>input.slice(a, b)\<close> for \<open>0 \<le> a\<close> and \<open>0 \<le> b\<close>.\<close>

definition slice :: "string \<Rightarrow> nat \<Rightarrow> nat \<Rightarrow> string" where
  "slice s a b = take (b - a) (drop a s)"

text \<open>
  \<^verbatim>\<open>if (text) segments.push(...)\<close>: an empty text is falsy and pushes nothing.
\<close>

definition push_text :: "TextSegment list \<Rightarrow> string \<Rightarrow> style \<Rightarrow> TextSegment list" where
  "push_text segments t st = (if t \<noteq> [] then segments @ [segment t st] else segments)"

lemma marker_here_length:
  "marker_here s = Some (g1, rest) \<Longrightarrow> length s = 3 + length g1 + length rest"
proof (cases s rule: marker_here.cases)
  case (1 e b t)
  assume m: "marker_here s = Some (g1, rest)"
  from m 1 obtain c where d: "dropWhile isParam t = c # rest" and g: "g1 = takeWhile isParam t"
    by (auto split: if_splits list.splits)
  have "length t = length (takeWhile isParam t) + length (dropWhile isParam t)"
    by (metis length_append takeWhile_dropWhile_id)
  with d g 1 show ?thesis by simp
qed auto

lemma search_from_bounds:
  "search_from s i = Some (k, g1, n) \<Longrightarrow> i \<le> k \<and> n = 3 + length g1 \<and> k + n \<le> i + length s"
proof (induction s arbitrary: i)
  case Nil
  then show ?case by simp
next
  case (Cons c cs)
  show ?case
  proof (cases "marker_here (c # cs)")
    case None
    with Cons.prems have "search_from cs (Suc i) = Some (k, g1, n)" by simp
    from Cons.IH [OF this] show ?thesis by simp
  next
    case (Some p)
    obtain g r where p: "p = (g, r)" by (cases p)
    from Some p Cons.prems have "k = i" "g1 = g" "n = 3 + length g" by auto
    moreover from Some p have "length (c # cs) = 3 + length g + length r"
      by (auto dest: marker_here_length)
    ultimately show ?thesis by simp
  qed
qed

lemma ansiRegex_exec_bounds:
  assumes "ansiRegex_exec input lastIndex = Some (k, g1, n)"
  shows "lastIndex \<le> k" and "n = 3 + length g1" and "k + n \<le> length input"
proof -
  from assms have le: "lastIndex \<le> length input"
    and s: "search_from (drop lastIndex input) lastIndex = Some (k, g1, n)"
    by (auto simp: ansiRegex_exec_def split: if_splits)
  from search_from_bounds [OF s] le
  show "lastIndex \<le> k" and "n = 3 + length g1" and "k + n \<le> length input"
    by auto
qed

subsection \<open>The loop of parseAnsi\<close>

text \<open>
  The \<^verbatim>\<open>while ((match = ansiRegex.exec(input)) !== null)\<close> loop, on the loop's variables:
  \<^verbatim>\<open>lastIndex\<close>, the active style and the segments pushed so far. A match is at least
  three characters long, so \<^verbatim>\<open>lastIndex\<close> grows in every round.
\<close>

function parseAnsi_loop ::
  "string \<Rightarrow> nat \<Rightarrow> style \<Rightarrow> TextSegment list \<Rightarrow> nat \<times> style \<times> TextSegment list" where
  "parseAnsi_loop input lastIndex st segments =
     (case ansiRegex_exec input lastIndex of
        None \<Rightarrow> (lastIndex, st, segments)
      | Some (index, g1, n) \<Rightarrow>
          parseAnsi_loop input (index + n)
            (apply_codes st (codes_of g1))
            (if lastIndex < index
             then push_text segments (slice input lastIndex index) st
             else segments))"
  by pat_completeness auto

termination
proof (relation "measure (\<lambda>(input, lastIndex, st, segments). length input - lastIndex)")
  show "wf (measure (\<lambda>(input, lastIndex, st, segments). length input - lastIndex))"
    by simp
next
  fix input :: string and lastIndex :: nat and st :: style and segments :: "TextSegment list"
    and x2 :: "nat \<times> string \<times> nat" and index :: nat and y :: "string \<times> nat"
    and g1 :: string and n :: nat
  assume "ansiRegex_exec input lastIndex = Some x2" "(index, y) = x2" "(g1, n) = y"
  then have e: "ansiRegex_exec input lastIndex = Some (index, g1, n)" by simp
  from ansiRegex_exec_bounds [OF e]
  have "lastIndex < index + n" and "index + n \<le> length input" by auto
  then show "((input, index + n, apply_codes st (codes_of g1),
               if lastIndex < index then push_text segments (slice input lastIndex index) st
               else segments),
              (input, lastIndex, st, segments))
             \<in> measure (\<lambda>(input, lastIndex, st, segments). length input - lastIndex)"
    by simp
qed

definition parseAnsi :: "string \<Rightarrow> TextSegment list" where
  "parseAnsi input =
     (case parseAnsi_loop input 0 default_style [] of
        (lastIndex, st, segments) \<Rightarrow>
          (let segments' =
             (if lastIndex < length input
              then push_text segments (drop lastIndex input) st
              else segments)
           in if 0 < length segments' then segments' else [plain_segment input]))"

subsection \<open>Removing the markers\<close>

text \<open>
  \<^verbatim>\<open>line.replace(/\x1b\[[0-9;]*m/g, '')\<close> of ServerDetail.tsx: every match of the marker
  expression, found from left to right, is replaced by nothing. This is the line with its
  well-formed markers removed.
\<close>

function stripAnsi :: "string \<Rightarrow> string" where
  "stripAnsi [] = []"
| "stripAnsi (c # cs) =
     (case marker_here (c # cs) of
        Some (g1, rest) \<Rightarrow> stripAnsi rest
      | None \<Rightarrow> c # stripAnsi cs)"
  by pat_completeness auto

termination
proof (relation "measure length")
  show "wf (measure length)" by simp
next
  fix c :: char and cs :: string and x2 :: "string \<times> string" and g1 rest :: string
  assume "marker_here (c # cs) = Some x2" "(g1, rest) = x2"
  then have "marker_here (c # cs) = Some (g1, rest)" by simp
  from marker_here_length [OF this] show "(rest, c # cs) \<in> measure length" by simp
next
  fix c :: char and cs :: string
  show "(cs, c # cs) \<in> measure length" by simp
qed

section \<open>ConsoleOutput.tsx: the severity classifier\<close>
























section \<open>ServerDetail.tsx: the console session\<close>

subsection \<open>State\<close>

text \<open>
  Modelled from the spec: the type of \<^verbatim>\<open>server.status\<close> is declared in a file that is
  not among the sources. The specification lists its values: starting, installing,
  running, stopping, stopped and error. The component reads \<^verbatim>\<open>server?.status\<close>, which
  is \<^verbatim>\<open>undefined\<close> (here \<open>None\<close>) while the server is not found.
\<close>

datatype status = Starting | Installing | Running | Stopping | Stopped | Error

text \<open>
  The properties of the console element that the component reads and writes through
  \<^verbatim>\<open>consoleRef\<close>, in distance units (pixels, which may be fractional).
\<close>

record console_element =
  scrollTop :: real
  scrollHeight :: real
  clientHeight :: real

text \<open>
  The state and the refs of the component that the console uses. \<^verbatim>\<open>consoleRef.current\<close>
  is \<open>None\<close> while the console is not mounted. \<^verbatim>\<open>oauthUrl\<close> and \<^verbatim>\<open>oauthCode\<close> are a
  string or \<^verbatim>\<open>null\<close>.
\<close>

record session =
  command :: string
  logs :: "string list"
  isStreaming :: bool
  autoScroll :: bool
  userScrolledRef :: bool
  lastLogCountRef :: nat
  commandHistory :: "string list"
  historyIndex :: int
  oauthUrl :: "string option"
  oauthCode :: "string option"
  oauthDismissed :: bool
  prevStatusRef :: "status option"
  consoleRef :: "console_element option"

text \<open>The initial values of \<^verbatim>\<open>useState\<close> and \<^verbatim>\<open>useRef\<close>, for the status of the first render.\<close>

definition initial_session :: "status option \<Rightarrow> session" where
  "initial_session st =
     \<lparr>command = [], logs = [], isStreaming = False, autoScroll = True,
      userScrolledRef = False, lastLogCountRef = 0, commandHistory = [], historyIndex = - 1,
      oauthUrl = None, oauthCode = None, oauthDismissed = False, prevStatusRef = st,
      consoleRef = None\<rparr>"

text \<open>A string or \<^verbatim>\<open>null\<close> used as a condition: \<^verbatim>\<open>null\<close> and the empty string are falsy.\<close>

definition truthy :: "string option \<Rightarrow> bool" where
  "truthy x = (case x of None \<Rightarrow> False | Some u \<Rightarrow> u \<noteq> [])"

subsection \<open>The log buffer and the status transition\<close>

text \<open>The listener of \<^verbatim>\<open>server-log\<close>: \<^verbatim>\<open>setLogs((prev) => [...prev, line])\<close>.\<close>

definition append_log :: "string \<Rightarrow> session \<Rightarrow> session" where
  "append_log line s = s\<lparr>logs := logs s @ [line]\<rparr>"

text \<open>
  The effect on \<^verbatim>\<open>server?.status\<close>, run with the status of the render:
  the logs are emptied when the previous status was running and the new one is stopped.
\<close>

definition status_effect :: "status option \<Rightarrow> session \<Rightarrow> session" where
  "status_effect st s =
     (let s' =
        (if prevStatusRef s = Some Running \<and> st = Some Stopped
         then s\<lparr>logs := [], isStreaming := False, userScrolledRef := False,
                autoScroll := True\<rparr>
         else s)
      in s'\<lparr>prevStatusRef := st\<rparr>)"

subsection \<open>Scrolling\<close>

text \<open>
  \<^verbatim>\<open>consoleEndRef.current\<close> is the element after the last line: ConsoleOutput renders it
  when the console is mounted and there is at least one line.
\<close>

definition consoleEndRef_mounted :: "session \<Rightarrow> bool" where
  "consoleEndRef_mounted s = (consoleRef s \<noteq> None \<and> length (logs s) \<noteq> 0)"

text \<open>
  \<^verbatim>\<open>consoleEndRef.current.scrollIntoView({ behavior: 'instant' })\<close>: the console is
  scrolled as far down as it goes, which brings the end of the newest line into view.
\<close>

definition bottom :: "console_element \<Rightarrow> real" where
  "bottom el = max 0 (scrollHeight el - clientHeight el)"

definition scrollIntoView :: "session \<Rightarrow> session" where
  "scrollIntoView s =
     (case consoleRef s of
        None \<Rightarrow> s
      | Some el \<Rightarrow> s\<lparr>consoleRef := Some (el\<lparr>scrollTop := bottom el\<rparr>)\<rparr>)"

text \<open>The effect on \<^verbatim>\<open>[logs.length, autoScroll]\<close>.\<close>

definition autoScroll_effect :: "session \<Rightarrow> session" where
  "autoScroll_effect s =
     (let s' =
        (if autoScroll s \<and> consoleEndRef_mounted s \<and> \<not> userScrolledRef s
         then scrollIntoView s else s)
      in s'\<lparr>lastLogCountRef := length (logs s)\<rparr>)"

definition handleScroll :: "session \<Rightarrow> session" where
  "handleScroll s =
     (case consoleRef s of
        None \<Rightarrow> s
      | Some el \<Rightarrow>
          (let isAtBottom = (scrollHeight el - scrollTop el - clientHeight el < 50);
               s1 = (if \<not> isAtBottom \<and> lastLogCountRef s = length (logs s)
                     then s\<lparr>userScrolledRef := True, autoScroll := False\<rparr>
                     else s)
           in if isAtBottom then s1\<lparr>userScrolledRef := False, autoScroll := True\<rparr>
              else s1))"

text \<open>The button that shows while \<^verbatim>\<open>autoScroll\<close> is off.\<close>

definition scroll_to_bottom_click :: "session \<Rightarrow> session" where
  "scroll_to_bottom_click s = scrollIntoView (s\<lparr>userScrolledRef := False, autoScroll := True\<rparr>)"

text \<open>
  The two states of the scroll controller: pinned when the auto-scroll effect would
  scroll, unpinned otherwise.
\<close>

definition pinned :: "session \<Rightarrow> bool" where
  "pinned s = (autoScroll s \<and> \<not> userScrolledRef s)"

text \<open>
  A line arrives while the console is mounted: the line is appended, the browser lays the
  console out again, which gives it the scroll height \<open>h\<close>, and the auto-scroll effect runs
  because \<^verbatim>\<open>logs.length\<close> has changed.
\<close>

definition relayout :: "real \<Rightarrow> session \<Rightarrow> session" where
  "relayout h s =
     (case consoleRef s of
        None \<Rightarrow> s
      | Some el \<Rightarrow> s\<lparr>consoleRef := Some (el\<lparr>scrollHeight := h\<rparr>)\<rparr>)"

definition line_arrives :: "string \<Rightarrow> real \<Rightarrow> session \<Rightarrow> session" where
  "line_arrives line h s = autoScroll_effect (relayout h (append_log line s))"

subsection \<open>The device-code watcher\<close>

text \<open>\<^verbatim>\<open>.replace(/[\x00-\x1F]/g, '')\<close>.\<close>

definition removeControl :: "string \<Rightarrow> string" where
  "removeControl s = filter (\<lambda>c. \<not> code c \<le> 31) s"

text \<open>The marker expression is applied twice in the source, then the control characters go.\<close>

definition cleanLine :: "string \<Rightarrow> string" where
  "cleanLine line = removeControl (stripAnsi (stripAnsi line))"

text \<open>The class \<^verbatim>\<open>[A-Za-z0-9]\<close>.\<close>

definition isAlnum :: "char \<Rightarrow> bool" where
  "isAlnum c =
     ((65 \<le> code c \<and> code c \<le> 90) \<or> (97 \<le> code c \<and> code c \<le> 122) \<or> isDigit c)"

definition url_literal :: string where
  "url_literal = ''https://oauth.accounts.hytale.com/oauth2/device/verify?user_code=''"

text \<open>
  \<^verbatim>\<open>cleanLine.match(urlRegex)\<close>: the leftmost position where the literal is followed by
  at least one character of the class; the group takes the longest run. The result is
  \<^verbatim>\<open>match[0]\<close> and \<^verbatim>\<open>match[1]\<close>.
\<close>

fun urlRegex_match :: "string \<Rightarrow> (string \<times> string) option" where
  "urlRegex_match [] = None"
| "urlRegex_match (c # cs) =
     (let user_code = takeWhile isAlnum (drop (length url_literal) (c # cs))
      in if prefix url_literal (c # cs) \<and> user_code \<noteq> []
         then Some (url_literal @ user_code, user_code)
         else urlRegex_match cs)"

text \<open>The loop over \<^verbatim>\<open>recentLogs\<close>: the first line that matches ends it.\<close>

fun scan_lines :: "string list \<Rightarrow> (string \<times> string) option" where
  "scan_lines [] = None"
| "scan_lines (line # rest) =
     (case urlRegex_match (cleanLine line) of
        Some m \<Rightarrow> Some m
      | None \<Rightarrow> scan_lines rest)"

text \<open>\<^verbatim>\<open>logs.slice(-30)\<close>: the last \<open>n\<close> lines, or all of them when there are fewer.\<close>

definition slice_last :: "nat \<Rightarrow> 'a list \<Rightarrow> 'a list" where
  "slice_last n xs = (if length xs \<le> n then xs else drop (length xs - n) xs)"

text \<open>The effect on \<^verbatim>\<open>[logs, oauthUrl, oauthDismissed, server?.status]\<close>.\<close>

definition oauth_effect :: "status option \<Rightarrow> session \<Rightarrow> session" where
  "oauth_effect st s =
     (if st = Some Stopped \<or> st = Some Error
      then (let s' = (if truthy (oauthUrl s) then s\<lparr>oauthUrl := None, oauthCode := None\<rparr>
                      else s)
            in s'\<lparr>oauthDismissed := False\<rparr>)
      else if oauthDismissed s \<or> truthy (oauthUrl s) then s
      else (case scan_lines (rev (slice_last 30 (logs s))) of
              None \<Rightarrow> s
            | Some (detectedUrl, detectedCode) \<Rightarrow>
                s\<lparr>oauthUrl := Some detectedUrl, oauthCode := Some detectedCode\<rparr>))"

text \<open>The two places that dismiss the popup.\<close>

definition dismiss_click :: "session \<Rightarrow> session" where
  "dismiss_click s = s\<lparr>oauthUrl := None, oauthDismissed := True\<rparr>"

subsection \<open>Commands and their history\<close>

text \<open>
  \<^verbatim>\<open>command.trim()\<close> on code units below 256: white space and line terminators are
  removed at both ends.
\<close>

definition isWhiteSpace :: "char \<Rightarrow> bool" where
  "isWhiteSpace c = (code c \<in> {9, 10, 11, 12, 13, 32, 160})"

definition trim :: "string \<Rightarrow> string" where
  "trim s = rev (dropWhile isWhiteSpace (rev (dropWhile isWhiteSpace s)))"

text \<open>
  \<^verbatim>\<open>handleSendCommand\<close>, up to the call of \<^verbatim>\<open>sendCommand\<close>: the result is the new state
  and the command handed to \<^verbatim>\<open>sendCommand\<close>, if any.
\<close>

definition handleSendCommand :: "session \<Rightarrow> session \<times> string option" where
  "handleSendCommand s =
     (if trim (command s) = [] then (s, None)
      else (let cmd = trim (command s) in
            (s\<lparr>commandHistory := filter (\<lambda>c. c \<noteq> cmd) (commandHistory s) @ [cmd],
               historyIndex := - 1,
               logs := logs s @ [''> '' @ cmd],
               command := []\<rparr>,
             Some cmd)))"

text \<open>
  \<^verbatim>\<open>commandHistory[i] || ''\<close>: an index outside the array reads \<^verbatim>\<open>undefined\<close>, which
  becomes the empty string.
\<close>

definition history_at :: "string list \<Rightarrow> int \<Rightarrow> string" where
  "history_at h i = (if 0 \<le> i \<and> i < int (length h) then h ! nat i else [])"

datatype key = Enter | ArrowUp | ArrowDown | OtherKey

definition handleKeyDown :: "key \<Rightarrow> session \<Rightarrow> session \<times> string option" where
  "handleKeyDown k s =
     (case k of
        Enter \<Rightarrow> handleSendCommand s
      | ArrowUp \<Rightarrow>
          (if 0 < length (commandHistory s)
           then (let newIndex =
                   (if historyIndex s < int (length (commandHistory s)) - 1
                    then historyIndex s + 1 else historyIndex s)
                 in (s\<lparr>historyIndex := newIndex,
                        command := history_at (commandHistory s)
                                     (int (length (commandHistory s)) - 1 - newIndex)\<rparr>,
                     None))
           else (s, None))
      | ArrowDown \<Rightarrow>
          (if 0 < historyIndex s
           then (let newIndex = historyIndex s - 1
                 in (s\<lparr>historyIndex := newIndex,
                        command := history_at (commandHistory s)
                                     (int (length (commandHistory s)) - 1 - newIndex)\<rparr>,
                     None))
           else (s\<lparr>historyIndex := - 1, command := []\<rparr>, None))
      | OtherKey \<Rightarrow> (s, None))"

text \<open>The two recalls of the history, as the keys that trigger them.\<close>

definition recallPrevious :: "session \<Rightarrow> session" where
  "recallPrevious s = fst (handleKeyDown ArrowUp s)"

definition recallNext :: "session \<Rightarrow> session" where
  "recallNext s = fst (handleKeyDown ArrowDown s)"

subsection \<open>Start, stop and clear\<close>

text \<open>The handlers up to their call of the store.\<close>

definition handleStart :: "session \<Rightarrow> session" where
  "handleStart s =
     s\<lparr>logs := [], userScrolledRef := False, autoScroll := True, oauthUrl := None,
       oauthCode := None, oauthDismissed := False\<rparr>"

definition handleStop :: "session \<Rightarrow> session" where
  "handleStop s = s\<lparr>logs := [''Stopping server...''], oauthUrl := None, oauthCode := None\<rparr>"

definition handleRestart :: "session \<Rightarrow> session" where
  "handleRestart s = s\<lparr>logs := [''Restarting server...'']\<rparr>"

definition handleClearLogs :: "session \<Rightarrow> session" where
  "handleClearLogs s =
     s\<lparr>logs := [], userScrolledRef := False, autoScroll := True, oauthUrl := None,
       oauthCode := None, oauthDismissed := False\<rparr>"

subsection \<open>The sessions the component can reach\<close>

text \<open>
  The remaining updates of the state: the input field (\<^verbatim>\<open>onChange\<close>), \<^verbatim>\<open>setLogs\<close> with a
  fetched list or with the empty list, \<^verbatim>\<open>setIsStreaming(true)\<close>, and what the browser does
  to the console element (mounting, layout, scrolling).
\<close>

definition setCommand :: "string \<Rightarrow> session \<Rightarrow> session" where
  "setCommand c s = s\<lparr>command := c\<rparr>"

definition setLogs :: "string list \<Rightarrow> session \<Rightarrow> session" where
  "setLogs ls s = s\<lparr>logs := ls\<rparr>"

definition setIsStreaming :: "bool \<Rightarrow> session \<Rightarrow> session" where
  "setIsStreaming b s = s\<lparr>isStreaming := b\<rparr>"

definition browser_sets :: "console_element option \<Rightarrow> session \<Rightarrow> session" where
  "browser_sets el s = s\<lparr>consoleRef := el\<rparr>"

text \<open>
  A session is reachable when handlers, effects and the browser lead to it from the
  initial one, in any order and with any arguments.
\<close>

inductive reachable :: "session \<Rightarrow> bool" where
  initial: "reachable (initial_session st)"
| typed: "reachable s \<Longrightarrow> reachable (setCommand c s)"
| fetched: "reachable s \<Longrightarrow> reachable (setLogs ls s)"
| streaming: "reachable s \<Longrightarrow> reachable (setIsStreaming b s)"
| browser: "reachable s \<Longrightarrow> reachable (browser_sets el s)"
| appended: "reachable s \<Longrightarrow> reachable (append_log line s)"
| status_changed: "reachable s \<Longrightarrow> reachable (status_effect st s)"
| scrolled_effect: "reachable s \<Longrightarrow> reachable (autoScroll_effect s)"
| watched: "reachable s \<Longrightarrow> reachable (oauth_effect st s)"
| scrolled: "reachable s \<Longrightarrow> reachable (handleScroll s)"
| to_bottom: "reachable s \<Longrightarrow> reachable (scroll_to_bottom_click s)"
| dismissed: "reachable s \<Longrightarrow> reachable (dismiss_click s)"
| sent: "reachable s \<Longrightarrow> reachable (fst (handleSendCommand s))"
| key: "reachable s \<Longrightarrow> reachable (fst (handleKeyDown k s))"
| started: "reachable s \<Longrightarrow> reachable (handleStart s)"
| stopped: "reachable s \<Longrightarrow> reachable (handleStop s)"
| restarted: "reachable s \<Longrightarrow> reachable (handleRestart s)"
| cleared: "reachable s \<Longrightarrow> reachable (handleClearLogs s)"

text \<open>
  What holds of the history in every reachable session: no command occurs twice, and the
  cursor is -1 or the offset of an entry.
\<close>

definition history_ok :: "session \<Rightarrow> bool" where
  "history_ok s =
     (distinct (commandHistory s) \<and> - 1 \<le> historyIndex s \<and>
      historyIndex s < int (length (commandHistory s)))"

text \<open>The user types a command and sends it.\<close>

definition submit :: "string \<Rightarrow> session \<Rightarrow> session" where
  "submit c s = fst (handleSendCommand (setCommand c s))"

section \<open>Example sessions and lines\<close>




definition detected_session :: session where
  "detected_session =
     (initial_session (Some Running))
       \<lparr>logs := [''Server started'', ''Please visit the link''],
        oauthUrl := Some (url_literal @ ''AB12''), oauthCode := Some ''AB12''\<rparr>"

definition resubmit_session :: session where
  "resubmit_session =
     setCommand '' say hi ''
       (submit ''list'' (submit ''say hi'' (initial_session (Some Running))))"

definition browsing_session :: session where
  "browsing_session =
     submit ''stop'' (submit ''list'' (submit ''help'' (initial_session (Some Running))))"

definition dismissed_session :: session where
  "dismissed_session =
     (initial_session (Some Running))
       \<lparr>logs := [''Server started''], oauthCode := Some ''AB12'', oauthDismissed := True\<rparr>"

section \<open>Properties\<close>

subsection \<open>The visible text of the segments\<close>

lemma marker_here_shape:
  "marker_here s = Some (g1, rest) \<Longrightarrow> s = ESC # CHR ''['' # g1 @ CHR ''m'' # rest"
proof (cases s rule: marker_here.cases)
  case (1 e b t)
  assume m: "marker_here s = Some (g1, rest)"
  from m 1 have eb: "e = ESC" "b = CHR ''[''" by (auto split: if_splits)
  from m 1 have d: "dropWhile isParam t = CHR ''m'' # rest" and g: "g1 = takeWhile isParam t"
    by (auto split: if_splits list.splits)
  have "t = takeWhile isParam t @ dropWhile isParam t" by simp
  with d g have "t = g1 @ CHR ''m'' # rest" by simp
  with 1 eb show ?thesis by simp
qed auto

lemma drop_marker: "drop (3 + length g) (a # b # g @ m # r) = r"
proof -
  have "drop (3 + length g) (a # b # g @ m # r) = drop (Suc (length g)) (g @ m # r)"
    by (simp add: numeral_3_eq_3)
  then show ?thesis by simp
qed

lemma strip_no_match: "search_from s i = None \<Longrightarrow> stripAnsi s = s"
  by (induction s arbitrary: i) (auto split: option.splits)

lemma strip_match:
  "search_from s i = Some (k, g1, n) \<Longrightarrow>
   stripAnsi s = take (k - i) s @ stripAnsi (drop (k - i + n) s)"
proof (induction s arbitrary: i)
  case Nil
  then show ?case by simp
next
  case (Cons c cs)
  show ?case
  proof (cases "marker_here (c # cs)")
    case None
    with Cons.prems have s: "search_from cs (Suc i) = Some (k, g1, n)" by simp
    from search_from_bounds [OF s] have "Suc i \<le> k" by simp
    then have "k - i = Suc (k - Suc i)" by simp
    with Cons.IH [OF s] None show ?thesis by simp
  next
    case (Some p)
    obtain g r where p: "p = (g, r)" by (cases p)
    from Some p Cons.prems have kn: "k = i" "n = 3 + length g" by auto
    from Some p have "c # cs = ESC # CHR ''['' # g @ CHR ''m'' # r"
      by (auto dest: marker_here_shape)
    then have "drop n (c # cs) = r" using kn by (simp add: drop_marker)
    with Some p kn show ?thesis by simp
  qed
qed


lemma concat_push_text:
  "concat (map seg_text (push_text segs t st)) = concat (map seg_text segs) @ t"
  by (simp add: push_text_def segment_def)

lemma nonempty_push_text:
  "\<forall>g \<in> set segs. seg_text g \<noteq> [] \<Longrightarrow>
   \<forall>g \<in> set (push_text segs t st). seg_text g \<noteq> []"
  by (simp add: push_text_def segment_def)

lemma exec_None_strip:
  "ansiRegex_exec input i = None \<Longrightarrow> i \<le> length input \<Longrightarrow>
   stripAnsi (drop i input) = drop i input"
  by (auto simp: ansiRegex_exec_def dest: strip_no_match)

lemma exec_Some_strip:
  assumes "ansiRegex_exec input i = Some (k, g1, n)"
  shows "stripAnsi (drop i input) = slice input i k @ stripAnsi (drop (k + n) input)"
proof -
  from assms have le: "i \<le> length input"
    and s: "search_from (drop i input) i = Some (k, g1, n)"
    by (auto simp: ansiRegex_exec_def split: if_splits)
  from ansiRegex_exec_bounds(1) [OF assms] have "k - i + n + i = k + n" by simp
  with strip_match [OF s] show ?thesis by (simp add: slice_def)
qed

lemma parseAnsi_loop_strip:
  "i \<le> length input \<Longrightarrow> \<forall>g \<in> set segs. seg_text g \<noteq> [] \<Longrightarrow>
   parseAnsi_loop input i st segs = (j, st', segs') \<Longrightarrow>
   j \<le> length input \<and> (\<forall>g \<in> set segs'. seg_text g \<noteq> []) \<and>
   concat (map seg_text segs') @ drop j input =
     concat (map seg_text segs) @ stripAnsi (drop i input)"
proof (induction input i st segs rule: parseAnsi_loop.induct)
  case (1 input lastIndex st segments)
  show ?case
  proof (cases "ansiRegex_exec input lastIndex")
    case None
    with "1.prems" have "j = lastIndex" "segs' = segments" by simp_all
    with None "1.prems" show ?thesis by (simp add: exec_None_strip)
  next
    case (Some m)
    obtain k g1 n where m: "m = (k, g1, n)" by (cases m)
    let ?segs = "if lastIndex < k then push_text segments (slice input lastIndex k) st
                 else segments"
    from Some m have e: "ansiRegex_exec input lastIndex = Some (k, g1, n)" by simp
    from ansiRegex_exec_bounds [OF e] have b: "lastIndex \<le> k" "k + n \<le> length input"
      by auto
    from e "1.prems"(3)
    have r: "parseAnsi_loop input (k + n) (apply_codes st (codes_of g1)) ?segs = (j, st', segs')"
      by simp
    have ne: "\<forall>g \<in> set ?segs. seg_text g \<noteq> []"
      using "1.prems"(2) by (simp add: nonempty_push_text)
    have c: "concat (map seg_text ?segs) = concat (map seg_text segments) @ slice input lastIndex k"
      using b by (simp add: concat_push_text slice_def)
    from "1.IH" [OF e refl refl b(2) ne r] c exec_Some_strip [OF e]
    show ?thesis by simp
  qed
qed

lemma parseAnsi_cases:
  "(stripAnsi input \<noteq> [] \<longrightarrow> concat (map seg_text (parseAnsi input)) = stripAnsi input) \<and>
   (stripAnsi input = [] \<longrightarrow> parseAnsi input = [plain_segment input])"
proof -
  obtain j st segs where l: "parseAnsi_loop input 0 default_style [] = (j, st, segs)"
    by (cases "parseAnsi_loop input 0 default_style []")
  let ?segs = "if j < length input then push_text segs (drop j input) st else segs"
  from parseAnsi_loop_strip [OF _ _ l]
  have j: "j \<le> length input" and ne: "\<forall>g \<in> set segs. seg_text g \<noteq> []"
    and c: "concat (map seg_text segs) @ drop j input = stripAnsi input"
    by simp_all
  have c': "concat (map seg_text ?segs) = stripAnsi input"
  proof (cases "j < length input")
    case True
    with c show ?thesis by (simp add: concat_push_text)
  next
    case False
    with j have "drop j input = []" by simp
    with c False show ?thesis by simp
  qed
  have ne': "\<forall>g \<in> set ?segs. seg_text g \<noteq> []"
    using ne by (simp add: nonempty_push_text)
  have p: "parseAnsi input = (if 0 < length ?segs then ?segs else [plain_segment input])"
    using l by (simp add: parseAnsi_def Let_def)
  show ?thesis
  proof (cases "?segs = []")
    case True
    with c' p show ?thesis by simp
  next
    case False
    then obtain g gs where g: "?segs = g # gs" by (cases ?segs) auto
    have "seg_text g \<noteq> []" using ne' unfolding g by simp
    moreover have "stripAnsi input = seg_text g @ concat (map seg_text gs)"
      using c' unfolding g by simp
    ultimately have "stripAnsi input \<noteq> []" by simp
    moreover have "parseAnsi input = ?segs" using p False by simp
    ultimately show ?thesis using c' by simp
  qed
qed

text \<open>The line of the specification: red \<^verbatim>\<open>error\<close>, a reset, then \<^verbatim>\<open> ok\<close>.\<close>

lemma parseAnsi_red_error:
  "parseAnsi (ESC # ''[31merror'' @ ESC # ''[0m ok'') =
     [\<lparr>seg_text = ''error'', seg_classes = [''text-red-500''], seg_bold = Some False,
       seg_dim = Some False, seg_italic = Some False, seg_underline = Some False\<rparr>,
      \<lparr>seg_text = '' ok'', seg_classes = [], seg_bold = Some False, seg_dim = Some False,
       seg_italic = Some False, seg_underline = Some False\<rparr>]"
  by code_simp

text \<open>
  Claim C1, amended. For every line whose text outside the well-formed markers is not
  empty, the texts of the segments of \<^verbatim>\<open>parseAnsi\<close>, concatenated, are the line with
  every well-formed marker removed.
\<close>

theorem segments_cover_visible_text:
  assumes "stripAnsi input \<noteq> []"
  shows "concat (map seg_text (parseAnsi input)) = stripAnsi input"
  using assms parseAnsi_cases [of input] by simp

text \<open>
  Claim C1 as stated fails on a line that is a marker and nothing else: the line contains
  a marker, and the one segment returned holds the raw line, not the empty text.
\<close>

theorem marker_only_counterexample:
  "ansiRegex_exec (ESC # ''[0m'') 0 = Some (0, ''0'', 4) \<and>
   concat (map seg_text (parseAnsi (ESC # ''[0m''))) \<noteq> stripAnsi (ESC # ''[0m'')"
  by code_simp

text \<open>The theorem at the line of the specification: red \<^verbatim>\<open>error\<close>, a reset, then \<^verbatim>\<open> ok\<close>.\<close>

theorem segments_cover_visible_text_witness:
  "stripAnsi (ESC # ''[31merror'' @ ESC # ''[0m ok'') = ''error ok'' \<and>
   concat (map seg_text (parseAnsi (ESC # ''[31merror'' @ ESC # ''[0m ok''))) = ''error ok''"
proof -
  have s: "stripAnsi (ESC # ''[31merror'' @ ESC # ''[0m ok'') = ''error ok''"
    by code_simp
  then have "stripAnsi (ESC # ''[31merror'' @ ESC # ''[0m ok'') \<noteq> []" by simp
  from segments_cover_visible_text [OF this] s show ?thesis by simp
qed

subsection \<open>The window of the device-code watcher\<close>









subsection \<open>The scroll controller\<close>


lemma line_arrives_pinned:
  assumes "pinned s" and "consoleRef s = Some el"
  shows "consoleRef (line_arrives line h s) =
           Some (el\<lparr>scrollHeight := h, scrollTop := max 0 (h - clientHeight el)\<rparr>)"
    and "pinned (line_arrives line h s)"
  using assms
  by (simp_all add: line_arrives_def autoScroll_effect_def relayout_def append_log_def
      consoleEndRef_mounted_def scrollIntoView_def bottom_def pinned_def Let_def)


text \<open>
  A burst of lines, each with the scroll height that the layout gives the console after
  it: a pinned controller ends at the bottom of the last layout.
\<close>

lemma burst_ends_at_bottom:
  assumes "pinned s" and "consoleRef s = Some el"
  shows "ls \<noteq> [] \<Longrightarrow>
         pinned (foldl (\<lambda>t (line, h). line_arrives line h t) s ls) \<and>
         consoleRef (foldl (\<lambda>t (line, h). line_arrives line h t) s ls) =
           Some (el\<lparr>scrollHeight := snd (last ls),
                   scrollTop := max 0 (snd (last ls) - clientHeight el)\<rparr>)"
proof (induction ls rule: rev_induct)
  case Nil
  then show ?case by simp
next
  case (snoc x xs)
  obtain line h where x: "x = (line, h)" by (cases x)
  show ?case
  proof (cases "xs = []")
    case True
    with x line_arrives_pinned [OF assms, of line h] show ?thesis by simp
  next
    case False
    let ?t = "foldl (\<lambda>t (line, h). line_arrives line h t) s xs"
    from snoc.IH [OF False] have p: "pinned ?t"
      and c: "consoleRef ?t =
        Some (el\<lparr>scrollHeight := snd (last xs),
                scrollTop := max 0 (snd (last xs) - clientHeight el)\<rparr>)"
      by simp_all
    from line_arrives_pinned [OF p c, of line h] x show ?thesis by simp
  qed
qed




subsection \<open>From running to stopped\<close>

lemma status_effect_logs:
  "prevStatusRef s = Some Running \<Longrightarrow> logs (status_effect (Some Stopped) s) = []"
  by (simp add: status_effect_def)

lemma oauth_effect_terminal:
  "st = Some Stopped \<or> st = Some Error \<Longrightarrow>
   oauth_effect st s =
     (if truthy (oauthUrl s) then s\<lparr>oauthUrl := None, oauthCode := None, oauthDismissed := False\<rparr>
      else s\<lparr>oauthDismissed := False\<rparr>)"
  by (auto simp: oauth_effect_def)

lemma status_effect_oauth:
  "oauthUrl (status_effect st s) = oauthUrl s"
  "oauthCode (status_effect st s) = oauthCode s"
  by (simp_all add: status_effect_def Let_def)

text \<open>
  Claim C4. When the status goes from running to stopped, the two effects that depend on
  the status run: afterwards the log buffer is empty, no detection is active, an active
  detection has lost both its URL and its code, and the dismissed flag is false. (A
  detection that was dismissed earlier had lost its URL then; its code stays in the state,
  where nothing shows it.)
\<close>

theorem running_to_stopped_clears:
  assumes "prevStatusRef s = Some Running"
  shows "logs (oauth_effect (Some Stopped) (status_effect (Some Stopped) s)) = [] \<and>
         \<not> truthy (oauthUrl (oauth_effect (Some Stopped) (status_effect (Some Stopped) s))) \<and>
         (truthy (oauthUrl s) \<longrightarrow>
            oauthUrl (oauth_effect (Some Stopped) (status_effect (Some Stopped) s)) = None \<and>
            oauthCode (oauth_effect (Some Stopped) (status_effect (Some Stopped) s)) = None) \<and>
         oauthDismissed (oauth_effect (Some Stopped) (status_effect (Some Stopped) s)) = False"
  using assms
  by (simp add: oauth_effect_terminal status_effect_oauth status_effect_logs truthy_def)

text \<open>The theorem at a running session with two lines and an active detection.\<close>

theorem running_to_stopped_clears_witness:
  "prevStatusRef detected_session = Some Running \<and> truthy (oauthUrl detected_session) \<and>
   logs (oauth_effect (Some Stopped) (status_effect (Some Stopped) detected_session)) = [] \<and>
   oauthUrl (oauth_effect (Some Stopped) (status_effect (Some Stopped) detected_session)) = None \<and>
   oauthCode (oauth_effect (Some Stopped) (status_effect (Some Stopped) detected_session)) = None \<and>
   oauthDismissed (oauth_effect (Some Stopped) (status_effect (Some Stopped) detected_session))
     = False"
proof -
  have p: "prevStatusRef detected_session = Some Running"
    by (simp add: detected_session_def initial_session_def)
  have t: "truthy (oauthUrl detected_session)"
    by (simp add: detected_session_def initial_session_def truthy_def url_literal_def)
  from running_to_stopped_clears [OF p] p t show ?thesis by simp
qed

subsection \<open>The priority of the error label\<close>



















subsection \<open>Submitting a command again\<close>

lemma history_ok_handleSendCommand: "history_ok s \<Longrightarrow> history_ok (fst (handleSendCommand s))"
  by (simp add: history_ok_def handleSendCommand_def Let_def)

lemma history_ok_handleKeyDown: "history_ok s \<Longrightarrow> history_ok (fst (handleKeyDown k s))"
proof (cases k)
  case Enter
  assume "history_ok s"
  with Enter show ?thesis by (simp add: handleKeyDown_def history_ok_handleSendCommand)
next
  case ArrowUp
  assume "history_ok s"
  with ArrowUp show ?thesis by (auto simp: handleKeyDown_def history_ok_def Let_def)
next
  case ArrowDown
  assume "history_ok s"
  with ArrowDown show ?thesis by (auto simp: handleKeyDown_def history_ok_def Let_def)
next
  case OtherKey
  assume "history_ok s"
  with OtherKey show ?thesis by (simp add: handleKeyDown_def)
qed

lemma history_ok_frame:
  "commandHistory t = commandHistory s \<Longrightarrow> historyIndex t = historyIndex s \<Longrightarrow>
   history_ok s \<Longrightarrow> history_ok t"
  by (simp add: history_ok_def)

lemma reachable_history_ok: "reachable s \<Longrightarrow> history_ok s"
proof (induction rule: reachable.induct)
  case (initial st)
  show ?case by (simp add: history_ok_def initial_session_def)
next
  case (sent s)
  then show ?case by (simp add: history_ok_handleSendCommand)
next
  case (key s k)
  then show ?case by (simp add: history_ok_handleKeyDown)
next
  case (status_changed s st)
  then show ?case by (auto simp: status_effect_def Let_def elim: history_ok_frame [rotated 2])
next
  case (scrolled_effect s)
  then show ?case
    by (auto simp: autoScroll_effect_def scrollIntoView_def Let_def split: option.splits
        elim: history_ok_frame [rotated 2])
next
  case (watched s st)
  then show ?case
    by (auto simp: oauth_effect_def Let_def split: option.splits
        elim: history_ok_frame [rotated 2])
next
  case (scrolled s)
  then show ?case
    by (auto simp: handleScroll_def Let_def split: option.splits
        elim: history_ok_frame [rotated 2])
next
  case (to_bottom s)
  then show ?case
    by (auto simp: scroll_to_bottom_click_def scrollIntoView_def split: option.splits
        elim: history_ok_frame [rotated 2])
qed (auto simp: setCommand_def setLogs_def setIsStreaming_def browser_sets_def append_log_def
      dismiss_click_def handleStart_def handleStop_def handleRestart_def handleClearLogs_def
      elim: history_ok_frame [rotated 2])

lemma filter_distinct_mem:
  assumes "distinct h" and "c \<in> set h"
  shows "filter (\<lambda>x. x \<noteq> c) h = remove1 c h \<and> Suc (length (filter (\<lambda>x. x \<noteq> c) h)) = length h"
proof -
  have "filter (\<lambda>x. x \<noteq> c) h = removeAll c h"
    by (induction h) auto
  also have "\<dots> = remove1 c h"
    using assms(1) by (simp add: distinct_remove1_removeAll)
  finally have f: "filter (\<lambda>x. x \<noteq> c) h = remove1 c h" .
  from assms(2) have "0 < length h" by (cases h) auto
  with assms(2) have "Suc (length (remove1 c h)) = length h"
    by (simp add: length_remove1)
  with f show ?thesis by simp
qed

lemma resubmit_distinct:
  assumes "distinct (commandHistory s)"
    and "trim (command s) \<noteq> []"
    and "trim (command s) \<in> set (commandHistory s)"
  shows "length (commandHistory (fst (handleSendCommand s))) = length (commandHistory s) \<and>
         commandHistory (fst (handleSendCommand s)) =
           remove1 (trim (command s)) (commandHistory s) @ [trim (command s)] \<and>
         trim (command s) \<notin> set (remove1 (trim (command s)) (commandHistory s)) \<and>
         historyIndex (fst (handleSendCommand s)) = - 1 \<and>
         snd (handleSendCommand s) = Some (trim (command s))"
proof -
  let ?c = "trim (command s)"
  note fl = filter_distinct_mem [OF assms(1) assms(3)]
  have f: "filter (\<lambda>x. x \<noteq> ?c) (commandHistory s) = remove1 ?c (commandHistory s)"
    using fl by (rule conjunct1)
  have l: "Suc (length (filter (\<lambda>x. x \<noteq> ?c) (commandHistory s))) = length (commandHistory s)"
    using fl by (rule conjunct2)
  have n: "?c \<notin> set (remove1 ?c (commandHistory s))"
    using assms(1) by simp
  from assms(2) f l n show ?thesis
    by (simp add: handleSendCommand_def Let_def)
qed

text \<open>
  Claim C6. In every reachable session, submitting a command whose trimmed text is not
  empty and occurs in the history leaves the length of the history unchanged: the earlier
  occurrence is removed, the command is the newest entry, it occurs nowhere else, the
  cursor is reset to -1, and the trimmed command is handed on for dispatch.
\<close>

theorem resubmit_moves_to_newest:
  assumes "reachable s"
    and "trim (command s) \<noteq> []"
    and "trim (command s) \<in> set (commandHistory s)"
  shows "length (commandHistory (fst (handleSendCommand s))) = length (commandHistory s) \<and>
         commandHistory (fst (handleSendCommand s)) =
           remove1 (trim (command s)) (commandHistory s) @ [trim (command s)] \<and>
         trim (command s) \<notin> set (remove1 (trim (command s)) (commandHistory s)) \<and>
         historyIndex (fst (handleSendCommand s)) = - 1 \<and>
         snd (handleSendCommand s) = Some (trim (command s))"
proof -
  from assms(1) have "distinct (commandHistory s)"
    using reachable_history_ok [of s] by (simp add: history_ok_def)
  from resubmit_distinct [OF this assms(2,3)] show ?thesis .
qed

text \<open>
  The theorem at the session in which \<^verbatim>\<open>say hi\<close> and \<^verbatim>\<open>list\<close> were sent and \<^verbatim>\<open>say hi\<close> is
  typed again, with spaces around it.
\<close>

theorem resubmit_moves_to_newest_witness:
  "reachable resubmit_session \<and> trim (command resubmit_session) = ''say hi'' \<and>
   commandHistory resubmit_session = [''say hi'', ''list''] \<and>
   commandHistory (fst (handleSendCommand resubmit_session)) = [''list'', ''say hi''] \<and>
   historyIndex (fst (handleSendCommand resubmit_session)) = - 1"
proof -
  have r: "reachable resubmit_session"
    unfolding resubmit_session_def submit_def by (intro reachable.intros)
  have t: "trim (command resubmit_session) = ''say hi''"
    by code_simp
  have h: "commandHistory resubmit_session = [''say hi'', ''list'']"
    by code_simp
  have "trim (command resubmit_session) \<noteq> []"
    and "trim (command resubmit_session) \<in> set (commandHistory resubmit_session)"
    by (simp_all add: t h)
  from resubmit_moves_to_newest [OF r this] r show ?thesis
    by (simp add: t h)
qed

subsection \<open>Recalling past the oldest command\<close>

lemma recallPrevious_step:
  assumes "commandHistory s \<noteq> []"
    and "- 1 \<le> historyIndex s"
    and "historyIndex s < int (length (commandHistory s))"
  shows "commandHistory (recallPrevious s) = commandHistory s"
    and "historyIndex (recallPrevious s) =
           min (historyIndex s + 1) (int (length (commandHistory s)) - 1)"
    and "command (recallPrevious s) =
           commandHistory s ! nat (int (length (commandHistory s)) - 1 - historyIndex (recallPrevious s))"
proof -
  from assms(1) have l: "0 < length (commandHistory s)" by simp
  show "commandHistory (recallPrevious s) = commandHistory s"
    by (simp add: recallPrevious_def handleKeyDown_def Let_def)
  show "historyIndex (recallPrevious s) =
          min (historyIndex s + 1) (int (length (commandHistory s)) - 1)"
    using l assms(3) by (simp add: recallPrevious_def handleKeyDown_def Let_def min_def)
  show "command (recallPrevious s) =
          commandHistory s ! nat (int (length (commandHistory s)) - 1 - historyIndex (recallPrevious s))"
  proof (cases "commandHistory s")
    case Nil
    with assms(1) show ?thesis by simp
  next
    case (Cons a h)
    with assms(2,3) show ?thesis
      by (auto simp: recallPrevious_def handleKeyDown_def Let_def history_at_def)
  qed
qed

lemma recallPrevious_iterate:
  assumes "commandHistory s \<noteq> []"
    and "- 1 \<le> historyIndex s"
    and "historyIndex s < int (length (commandHistory s))"
  shows "commandHistory ((recallPrevious ^^ n) s) = commandHistory s \<and>
         historyIndex ((recallPrevious ^^ n) s) =
           min (historyIndex s + int n) (int (length (commandHistory s)) - 1) \<and>
         (0 < n \<longrightarrow> command ((recallPrevious ^^ n) s) =
            commandHistory s !
              nat (int (length (commandHistory s)) - 1 - historyIndex ((recallPrevious ^^ n) s)))"
proof (induction n)
  case 0
  from assms show ?case by simp
next
  case (Suc n)
  let ?t = "(recallPrevious ^^ n) s"
  from Suc have h: "commandHistory ?t = commandHistory s"
    and i: "historyIndex ?t = min (historyIndex s + int n) (int (length (commandHistory s)) - 1)"
    by simp_all
  have a: "commandHistory ?t \<noteq> []" "- 1 \<le> historyIndex ?t"
    "historyIndex ?t < int (length (commandHistory ?t))"
    using assms h i by auto
  from recallPrevious_step [OF a] h i show ?case
    by (simp add: min_def)
qed

lemma recallPrevious_bounded:
  assumes "commandHistory s \<noteq> []"
    and "- 1 \<le> historyIndex s"
    and "historyIndex s < int (length (commandHistory s))"
    and "length (commandHistory s) < N"
  shows "historyIndex ((recallPrevious ^^ N) s) = int (length (commandHistory s)) - 1 \<and>
         command ((recallPrevious ^^ N) s) = hd (commandHistory s) \<and>
         commandHistory ((recallPrevious ^^ N) s) = commandHistory s \<and>
         recallPrevious ((recallPrevious ^^ N) s) = (recallPrevious ^^ N) s"
proof -
  let ?t = "(recallPrevious ^^ N) s"
  let ?M = "int (length (commandHistory s))"
  note it = recallPrevious_iterate [OF assms(1-3), of N]
  from it have h: "commandHistory ?t = commandHistory s" by simp
  from it assms(2,4) have i: "historyIndex ?t = ?M - 1" by (simp add: min_def)
  from assms(4) have "0 < N" by simp
  with it i have "command ?t = commandHistory s ! 0" by simp
  with assms(1) have c: "command ?t = hd (commandHistory s)" by (simp add: hd_conv_nth)
  have "recallPrevious ?t = ?t"
    using h i c assms(1)
    by (simp add: recallPrevious_def handleKeyDown_def Let_def history_at_def hd_conv_nth)
  with h i c show ?thesis by simp
qed

text \<open>
  Claim C7. In every reachable session with a history of M entries, M at least 1, more
  than M recalls of the previous command end on the oldest entry: the cursor is M - 1, the
  recalled command is the first entry of the history, and one more recall changes
  nothing. The handler has no failing branch: a read outside the history would give the
  empty string, and here the command read is an entry.
\<close>

theorem recallPrevious_stabilizes:
  assumes "reachable s"
    and "commandHistory s \<noteq> []"
    and "length (commandHistory s) < N"
  shows "historyIndex ((recallPrevious ^^ N) s) = int (length (commandHistory s)) - 1 \<and>
         command ((recallPrevious ^^ N) s) = hd (commandHistory s) \<and>
         commandHistory ((recallPrevious ^^ N) s) = commandHistory s \<and>
         recallPrevious ((recallPrevious ^^ N) s) = (recallPrevious ^^ N) s"
proof -
  from assms(1) have "- 1 \<le> historyIndex s"
    and "historyIndex s < int (length (commandHistory s))"
    using reachable_history_ok [of s] by (simp_all add: history_ok_def)
  from recallPrevious_bounded [OF assms(2) this assms(3)] show ?thesis .
qed

text \<open>The theorem at the session in which three commands were sent, and five recalls.\<close>

theorem recallPrevious_stabilizes_witness:
  "reachable browsing_session \<and>
   commandHistory browsing_session = [''help'', ''list'', ''stop''] \<and>
   historyIndex browsing_session = - 1 \<and>
   historyIndex ((recallPrevious ^^ 5) browsing_session) = 2 \<and>
   command ((recallPrevious ^^ 5) browsing_session) = ''help'' \<and>
   recallPrevious ((recallPrevious ^^ 5) browsing_session) = (recallPrevious ^^ 5) browsing_session"
proof -
  have r: "reachable browsing_session"
    unfolding browsing_session_def submit_def by (intro reachable.intros)
  have h: "commandHistory browsing_session = [''help'', ''list'', ''stop'']"
    by code_simp
  have i: "historyIndex browsing_session = - 1"
    by code_simp
  have "commandHistory browsing_session \<noteq> []"
    and "length (commandHistory browsing_session) < 5"
    by (simp_all add: h)
  from recallPrevious_stabilizes [OF r this] r show ?thesis
    by (simp add: h i)
qed

subsection \<open>The reset code\<close>




lemma not_isParam [simp]: "\<not> isParam ESC" "\<not> isParam (CHR ''m'')"
  by (simp_all add: isParam_def isDigit_def code_def ESC_def)











subsection \<open>A line of markers only\<close>

text \<open>
  Claim C9. For every line whose text outside the well-formed markers is empty,
  \<^verbatim>\<open>parseAnsi\<close> returns exactly one segment: its text is the whole raw line, escape
  characters included, it has no classes and none of the four flags.
\<close>

theorem markers_only_fallback:
  assumes "stripAnsi input = []"
  shows "parseAnsi input =
           [\<lparr>seg_text = input, seg_classes = [], seg_bold = None, seg_dim = None,
             seg_italic = None, seg_underline = None\<rparr>]"
  using assms parseAnsi_cases [of input] by (simp add: plain_segment_def)

text \<open>The theorem at a line of two markers.\<close>

theorem markers_only_fallback_witness:
  "ansiRegex_exec (ESC # ''[1;31m'' @ ESC # ''[0m'') 0 = Some (0, ''1;31'', 7) \<and>
   stripAnsi (ESC # ''[1;31m'' @ ESC # ''[0m'') = [] \<and>
   parseAnsi (ESC # ''[1;31m'' @ ESC # ''[0m'') =
     [\<lparr>seg_text = ESC # ''[1;31m'' @ ESC # ''[0m'', seg_classes = [], seg_bold = None,
       seg_dim = None, seg_italic = None, seg_underline = None\<rparr>]"
proof -
  have e: "ansiRegex_exec (ESC # ''[1;31m'' @ ESC # ''[0m'') 0 = Some (0, ''1;31'', 7)"
    by code_simp
  have s: "stripAnsi (ESC # ''[1;31m'' @ ESC # ''[0m'') = []"
    by code_simp
  from markers_only_fallback [OF s] e s show ?thesis by simp
qed

subsection \<open>The stop button\<close>

text \<open>
  Claim C10. \<^verbatim>\<open>handleStop\<close> replaces the log buffer by the one line
  \<^verbatim>\<open>Stopping server...\<close>, clears the URL and the code of the detection and changes
  nothing else, the dismissed flag included. The watcher's effect resets the flag when
  it runs with the status stopped or error, and leaves it when it runs with another status.
\<close>

theorem handleStop_frame:
  "logs (handleStop s) = [''Stopping server...''] \<and> logs (handleStop s) \<noteq> [] \<and>
   oauthUrl (handleStop s) = None \<and> oauthCode (handleStop s) = None \<and>
   oauthDismissed (handleStop s) = oauthDismissed s \<and>
   (handleStop s)\<lparr>logs := logs s, oauthUrl := oauthUrl s, oauthCode := oauthCode s\<rparr> = s \<and>
   (st = Some Stopped \<or> st = Some Error \<longrightarrow>
      oauthDismissed (oauth_effect st (handleStop s)) = False) \<and>
   (st \<noteq> Some Stopped \<and> st \<noteq> Some Error \<longrightarrow>
      oauthDismissed (oauth_effect st (handleStop s)) = oauthDismissed s)"
  by (auto simp: handleStop_def oauth_effect_def truthy_def split: option.splits)

text \<open>The theorem at a session whose detection was dismissed, for a stopped and a stopping status.\<close>

theorem handleStop_frame_witness:
  "oauthDismissed dismissed_session \<and>
   logs (handleStop dismissed_session) = [''Stopping server...''] \<and>
   oauthDismissed (handleStop dismissed_session) \<and>
   \<not> oauthDismissed (oauth_effect (Some Stopped) (handleStop dismissed_session)) \<and>
   oauthDismissed (oauth_effect (Some Stopping) (handleStop dismissed_session))"
proof -
  have d: "oauthDismissed dismissed_session"
    by (simp add: dismissed_session_def initial_session_def)
  from handleStop_frame [of dismissed_session "Some Stopped"]
    handleStop_frame [of dismissed_session "Some Stopping"] d
  show ?thesis by simp
qed

end
